theory Spec2Isabelle
  imports Complex_Main "HOL-Library.Log_Nat"
begin

section \<open>The JavaScript Number type\<close>

text \<open>
  \<^verbatim>\<open>script.js\<close> keeps its operands in JavaScript Numbers: IEEE 754 binary64 values.
  A finite value is its exact rational value (\<open>Fin 0\<close> is \<open>+0\<close>); negative zero, the two
  infinities and NaN are constructors of their own. Every arithmetic operation computes
  the exact rational result and rounds it to the nearest binary64 value, ties to the even
  significand, as the language does.
\<close>

datatype jsnum = NaN | PosInf | NegInf | NegZero | Fin rat

text \<open>\<open>ilog b q\<close> is \<open>\<lfloor>log\<^sub>b q\<rfloor>\<close> for a positive rational \<open>q\<close>.\<close>

definition ilog :: "nat \<Rightarrow> rat \<Rightarrow> int" where
  "ilog b q = (let (p, d) = quotient_of q;
                   e = int (floorlog b (nat p)) - int (floorlog b (nat d))
               in if of_nat b powi e \<le> q then e else e - 1)"

definition round_half_even :: "rat \<Rightarrow> int" where
  "round_half_even r = (let f = \<lfloor>r\<rfloor>; d = r - of_int f
     in if d < 1/2 then f else if 1/2 < d then f + 1 else if even f then f else f + 1)"

text \<open>
  Rounding of a non-negative rational to binary64: 53 significant bits, the least exponent
  of the last place is \<open>-1074\<close> (subnormals), and a result of \<open>2^1024\<close> or more (its
  binary logarithm is at least 1024) overflows (\<open>None\<close>, an infinity).
\<close>

definition round_pos :: "rat \<Rightarrow> rat option" where
  "round_pos q = (if q = 0 then Some 0 else
     let e = max (ilog 2 q - 52) (- 1074);
         v = of_int (round_half_even (q / 2 powi e)) * 2 powi e
     in if 1024 \<le> ilog 2 v then None else Some v)"

fun signed :: "bool \<Rightarrow> rat option \<Rightarrow> jsnum" where
  "signed neg None = (if neg then NegInf else PosInf)"
| "signed neg (Some m) = (if m = 0 then (if neg then NegZero else Fin 0)
                          else Fin (if neg then - m else m))"

text \<open>The Number value for a rational: zero is \<open>+0\<close>, a negative value that rounds to zero is \<open>-0\<close>.\<close>

definition to_number :: "rat \<Rightarrow> jsnum" where
  "to_number q = (if q = 0 then Fin 0 else signed (q < 0) (round_pos \<bar>q\<bar>))"

fun is_neg :: "jsnum \<Rightarrow> bool" where
  "is_neg NegInf = True"
| "is_neg NegZero = True"
| "is_neg (Fin q) = (q < 0)"
| "is_neg _ = False"

fun is_finite :: "jsnum \<Rightarrow> bool" where
  "is_finite NegZero = True"
| "is_finite (Fin q) = True"
| "is_finite _ = False"

text \<open>The mathematical value of a finite Number (both zeros are 0).\<close>

fun real_of :: "jsnum \<Rightarrow> rat" where
  "real_of (Fin q) = q"
| "real_of _ = 0"

text \<open>\<^verbatim>\<open>x === 0\<close>: true of both zeros, false of NaN.\<close>

fun is_zero :: "jsnum \<Rightarrow> bool" where
  "is_zero NegZero = True"
| "is_zero (Fin q) = (q = 0)"
| "is_zero _ = False"

fun js_neg :: "jsnum \<Rightarrow> jsnum" where
  "js_neg NaN = NaN"
| "js_neg PosInf = NegInf"
| "js_neg NegInf = PosInf"
| "js_neg NegZero = Fin 0"
| "js_neg (Fin q) = (if q = 0 then NegZero else Fin (- q))"

text \<open>\<^verbatim>\<open>x + y\<close>\<close>

fun js_add :: "jsnum \<Rightarrow> jsnum \<Rightarrow> jsnum" where
  "js_add NaN y = NaN"
| "js_add x NaN = NaN"
| "js_add PosInf NegInf = NaN"
| "js_add NegInf PosInf = NaN"
| "js_add PosInf y = PosInf"
| "js_add NegInf y = NegInf"
| "js_add x PosInf = PosInf"
| "js_add x NegInf = NegInf"
| "js_add NegZero NegZero = NegZero"
| "js_add x y = to_number (real_of x + real_of y)"

text \<open>\<^verbatim>\<open>x - y\<close> is \<^verbatim>\<open>x + (-y)\<close>.\<close>

definition js_sub :: "jsnum \<Rightarrow> jsnum \<Rightarrow> jsnum" where
  "js_sub x y = js_add x (js_neg y)"

text \<open>\<^verbatim>\<open>x * y\<close>: the sign of the result is the exclusive or of the operands' signs.\<close>

definition js_mul :: "jsnum \<Rightarrow> jsnum \<Rightarrow> jsnum" where
  "js_mul x y =
     (if x = NaN \<or> y = NaN then NaN
      else if \<not> is_finite x then (if is_zero y then NaN else signed (is_neg x \<noteq> is_neg y) None)
      else if \<not> is_finite y then (if is_zero x then NaN else signed (is_neg x \<noteq> is_neg y) None)
      else signed (is_neg x \<noteq> is_neg y) (round_pos (\<bar>real_of x\<bar> * \<bar>real_of y\<bar>)))"

text \<open>\<^verbatim>\<open>x / y\<close>\<close>

definition js_div :: "jsnum \<Rightarrow> jsnum \<Rightarrow> jsnum" where
  "js_div x y =
     (if x = NaN \<or> y = NaN then NaN
      else if \<not> is_finite x then (if \<not> is_finite y then NaN else signed (is_neg x \<noteq> is_neg y) None)
      else if \<not> is_finite y then signed (is_neg x \<noteq> is_neg y) (Some 0)
      else if is_zero y then (if is_zero x then NaN else signed (is_neg x \<noteq> is_neg y) None)
      else signed (is_neg x \<noteq> is_neg y) (round_pos (\<bar>real_of x\<bar> / \<bar>real_of y\<bar>)))"

text \<open>
  \<^verbatim>\<open>n % d\<close>: the remainder \<open>n - d * q\<close> where \<open>q\<close> is the quotient truncated towards zero;
  a zero remainder takes the sign of the dividend.
\<close>

definition trunc_quot :: "rat \<Rightarrow> rat \<Rightarrow> int" where
  "trunc_quot n d = (if (n < 0) = (d < 0) then \<lfloor>\<bar>n\<bar> / \<bar>d\<bar>\<rfloor> else - \<lfloor>\<bar>n\<bar> / \<bar>d\<bar>\<rfloor>)"

definition js_rem :: "jsnum \<Rightarrow> jsnum \<Rightarrow> jsnum" where
  "js_rem n d =
     (if n = NaN \<or> d = NaN then NaN
      else if \<not> is_finite n then NaN
      else if \<not> is_finite d then n
      else if is_zero d then NaN
      else if is_zero n then n
      else let r = real_of n - real_of d * of_int (trunc_quot (real_of n) (real_of d))
           in if r = 0 then (if is_neg n then NegZero else Fin 0) else to_number r)"


section \<open>Numbers and text\<close>

text \<open>
  Display text is a list of characters (code units below 256; the calculator writes ASCII
  only). \<^verbatim>\<open>parseFloat\<close> skips leading white space (tab, line feed, vertical tab, form
  feed, carriage return, space, no-break space) and reads the longest prefix that is a
  decimal literal: an optional sign, then \<^verbatim>\<open>Infinity\<close> or digits with an optional
  fraction and an optional exponent. No such prefix gives NaN. The value read is rounded
  to binary64.
\<close>

definition is_digit :: "char \<Rightarrow> bool" where
  "is_digit c = (48 \<le> (of_char c :: nat) \<and> (of_char c :: nat) \<le> 57)"

definition digit_val :: "char \<Rightarrow> nat" where
  "digit_val c = of_char c - 48"

definition digits_val :: "string \<Rightarrow> nat" where
  "digits_val ds = foldl (\<lambda>a c. 10 * a + digit_val c) 0 ds"

definition is_ws :: "char \<Rightarrow> bool" where
  "is_ws c = ((of_char c :: nat) \<in> {9, 10, 11, 12, 13, 32, 160})"

text \<open>The exponent part \<^verbatim>\<open>e\<close>, \<^verbatim>\<open>e+\<close> or \<^verbatim>\<open>e-\<close> followed by digits; anything else is no exponent.\<close>

fun exponent_part :: "string \<Rightarrow> int" where
  "exponent_part (c # rest) =
     (if c = CHR ''e'' \<or> c = CHR ''E'' then
        (case rest of
           s # ds \<Rightarrow>
             (if s = CHR ''-'' then - int (digits_val (takeWhile is_digit ds))
              else if s = CHR ''+'' then int (digits_val (takeWhile is_digit ds))
              else int (digits_val (takeWhile is_digit rest)))
         | [] \<Rightarrow> 0)
      else 0)"
| "exponent_part [] = 0"

definition parse_unsigned :: "string \<Rightarrow> rat option" where
  "parse_unsigned s =
     (let ip = takeWhile is_digit s;
          r1 = dropWhile is_digit s;
          fp = (case r1 of c # t \<Rightarrow> if c = CHR ''.'' then takeWhile is_digit t else [] | [] \<Rightarrow> []);
          r2 = (case r1 of c # t \<Rightarrow> if c = CHR ''.'' then dropWhile is_digit t else r1 | [] \<Rightarrow> [])
      in if ip = [] \<and> fp = [] then None
         else Some (of_nat (digits_val (ip @ fp)) / 10 ^ length fp * 10 powi exponent_part r2))"

definition parseFloat :: "string \<Rightarrow> jsnum" where
  "parseFloat s =
     (let t = dropWhile is_ws s;
          neg = (case t of c # r \<Rightarrow> c = CHR ''-'' | [] \<Rightarrow> False);
          u = (case t of c # r \<Rightarrow> if c = CHR ''-'' \<or> c = CHR ''+'' then r else t | [] \<Rightarrow> [])
      in if take 8 u = ''Infinity'' then signed neg None
         else (case parse_unsigned u of
                 None \<Rightarrow> NaN
               | Some v \<Rightarrow> signed neg (round_pos v)))"

text \<open>
  \<^verbatim>\<open>String(x)\<close> of a Number: the shortest decimal digit string \<open>s\<close> (of \<open>k\<close> digits) and
  exponent \<open>n\<close> such that \<open>s * 10^(n-k)\<close> rounds to \<open>x\<close>; of two candidates the one closer
  to \<open>x\<close>. The search tries \<open>k = 1, 2, \<dots>\<close> and ends, at the latest, where the decimal
  expansion of \<open>x\<close> is exact: a binary64 value is a multiple of a power of two, and
  \<open>digits_bound\<close> digits write it exactly.
\<close>

fun digits_of :: "nat \<Rightarrow> string" where
  "digits_of n = (if n < 10 then [char_of (48 + n)]
                  else digits_of (n div 10) @ [char_of (48 + n mod 10)])"

definition nearest :: "rat \<Rightarrow> int \<Rightarrow> int" where
  "nearest y lo = (let d = y - of_int lo
     in if d < 1/2 then lo else if 1/2 < d then lo + 1 else if even lo then lo else lo + 1)"

text \<open>The \<open>k\<close>-digit candidate for \<open>x\<close>, as \<open>(s, n)\<close>, if one rounds to \<open>x\<close>.\<close>

definition candidate :: "nat \<Rightarrow> rat \<Rightarrow> (nat \<times> int) option" where
  "candidate k x =
     (let t = ilog 10 x + 1 - int k;
          y = x / 10 powi t;
          lo = \<lfloor>y\<rfloor>;
          ok = (\<lambda>s. round_pos (of_int s * 10 powi t) = Some x);
          s = (if ok lo \<and> ok (lo + 1) then Some (nearest y lo)
               else if ok lo then Some lo
               else if ok (lo + 1) then Some (lo + 1)
               else None)
      in case s of
           None \<Rightarrow> None
         | Some s \<Rightarrow> if s = 10 ^ k then Some (10 ^ (k - 1), t + 1 + int k)
                     else Some (nat s, t + int k))"

fun shortest :: "nat \<Rightarrow> nat \<Rightarrow> rat \<Rightarrow> nat \<times> nat \<times> int" where
  "shortest 0 k x =
     (let t = ilog 10 x + 1 - int k; s = nearest (x / 10 powi t) \<lfloor>x / 10 powi t\<rfloor>
      in if s = 10 ^ k then (k, 10 ^ (k - 1), t + 1 + int k) else (k, nat s, t + int k))"
| "shortest (Suc fuel) k x =
     (case candidate k x of
        Some (s, n) \<Rightarrow> (k, s, n)
      | None \<Rightarrow> shortest fuel (Suc k) x)"

definition format_digits :: "nat \<Rightarrow> nat \<Rightarrow> int \<Rightarrow> string" where
  "format_digits k s n =
     (let ds = digits_of s in
      if int k \<le> n \<and> n \<le> 21 then ds @ replicate (nat n - k) (CHR ''0'')
      else if 0 < n \<and> n \<le> 21 then take (nat n) ds @ ''.'' @ drop (nat n) ds
      else if - 6 < n \<and> n \<le> 0 then ''0.'' @ replicate (nat (- n)) (CHR ''0'') @ ds
      else let e = n - 1;
               es = (if 0 \<le> e then ''+'' else ''-'') @ digits_of (nat \<bar>e\<bar>)
           in if k = 1 then ds @ ''e'' @ es
              else take 1 ds @ ''.'' @ drop 1 ds @ ''e'' @ es)"

definition digits_bound :: "rat \<Rightarrow> nat" where
  "digits_bound x = nat (ilog 10 x + 1) + nat (- max (ilog 2 x - 52) (- 1074)) + 1"

definition pos_toString :: "rat \<Rightarrow> string" where
  "pos_toString x = (case shortest (digits_bound x) 1 x of (k, s, n) \<Rightarrow> format_digits k s n)"

fun toString :: "jsnum \<Rightarrow> string" where
  "toString NaN = ''NaN''"
| "toString PosInf = ''Infinity''"
| "toString NegInf = ''-Infinity''"
| "toString NegZero = ''0''"
| "toString (Fin q) = (if q = 0 then ''0''
                       else if q < 0 then ''-'' @ pos_toString (- q)
                       else pos_toString q)"


section \<open>The calculator state\<close>

text \<open>
  The three module variables of \<^verbatim>\<open>script.js\<close>, the text of the two display elements the
  functions read and write, and the notices raised through \<^verbatim>\<open>alert\<close>, oldest first.
  \<^verbatim>\<open>null\<close> is \<open>None\<close>.
\<close>

record calc =
  previousValue :: "jsnum option"
  currentOperation :: "string option"
  shouldResetDisplay :: bool
  mainDisplay :: string
  operationDisplay :: string
  alerts :: "string list"

text \<open>
  Modelled from the spec: the page \<^verbatim>\<open>index.html\<close>, which gives the two display elements
  their first text, is not among the sources; the spec starts the calculator with Display
  Text \<^verbatim>\<open>0\<close> and an empty Operation Indicator. The three variables are initialised in
  \<^verbatim>\<open>script.js\<close>.
\<close>

definition initial :: calc where
  "initial = \<lparr>previousValue = None, currentOperation = None, shouldResetDisplay = True,
              mainDisplay = ''0'', operationDisplay = [], alerts = []\<rparr>"

definition updateDisplay :: "string \<Rightarrow> calc \<Rightarrow> calc" where
  "updateDisplay v s = s\<lparr>mainDisplay := v\<rparr>"

fun updateOperationDisplay :: "string option \<Rightarrow> jsnum option \<Rightarrow> calc \<Rightarrow> calc" where
  "updateOperationDisplay (Some operation) (Some v) s =
     (if operation \<noteq> [] then s\<lparr>operationDisplay := toString v @ '' '' @ operation\<rparr>
      else s\<lparr>operationDisplay := []\<rparr>)"
| "updateOperationDisplay operation v s = s\<lparr>operationDisplay := []\<rparr>"

definition handleNumberClick :: "string \<Rightarrow> calc \<Rightarrow> calc" where
  "handleNumberClick number s =
     (let currentDisplay = mainDisplay s in
      if shouldResetDisplay s then (updateDisplay number s)\<lparr>shouldResetDisplay := False\<rparr>
      else if currentDisplay = ''0'' \<and> number \<noteq> ''.'' then updateDisplay number s
      else updateDisplay (currentDisplay @ number) s)"

definition handleDecimal :: "calc \<Rightarrow> calc" where
  "handleDecimal s =
     (let currentDisplay = mainDisplay s in
      if shouldResetDisplay s then (updateDisplay ''0.'' s)\<lparr>shouldResetDisplay := False\<rparr>
      else if CHR ''.'' \<notin> set currentDisplay then updateDisplay (currentDisplay @ ''.'') s
      else s)"

text \<open>The result of a calculation and the notices it raised.\<close>

definition performCalculation :: "jsnum \<Rightarrow> jsnum \<Rightarrow> string \<Rightarrow> jsnum \<times> string list" where
  "performCalculation firstValue secondValue operation =
     (if operation = ''+'' then (js_add firstValue secondValue, [])
      else if operation = ''-'' then (js_sub firstValue secondValue, [])
      else if operation = ''*'' then (js_mul firstValue secondValue, [])
      else if operation = ''/'' then
        (if is_zero secondValue then (firstValue, [''Cannot divide by zero!''])
         else (js_div firstValue secondValue, []))
      else if operation = ''%'' then
        (if is_zero secondValue then (firstValue, [''Cannot perform modulo with zero!''])
         else (js_rem firstValue secondValue, []))
      else (secondValue, []))"

text \<open>
  The pending calculation that \<^verbatim>\<open>handleOperation\<close>, \<^verbatim>\<open>handleModulo\<close> and
  \<^verbatim>\<open>handleEquals\<close> run: the notices are raised, the result is written to the display.
\<close>

definition calculate :: "jsnum \<Rightarrow> jsnum \<Rightarrow> string \<Rightarrow> calc \<Rightarrow> jsnum \<times> calc" where
  "calculate firstValue secondValue operation s =
     (case performCalculation firstValue secondValue operation of
        (result, notices) \<Rightarrow>
          (result, updateDisplay (toString result) (s\<lparr>alerts := alerts s @ notices\<rparr>)))"

text \<open>
  The test \<^verbatim>\<open>previousValue !== null && currentOperation\<close>: both variables are set and the
  operator is not the empty string. When it holds, the pending operand and operator.
\<close>

definition pending :: "calc \<Rightarrow> (jsnum \<times> string) option" where
  "pending s =
     (case previousValue s of
        None \<Rightarrow> None
      | Some pv \<Rightarrow>
          (case currentOperation s of
             None \<Rightarrow> None
           | Some operation \<Rightarrow> if operation = [] then None else Some (pv, operation)))"

definition handleOperation :: "string \<Rightarrow> calc \<Rightarrow> calc" where
  "handleOperation operation s =
     (let currentValue = parseFloat (mainDisplay s);
          stored = s\<lparr>previousValue := Some currentValue\<rparr>;
          s1 = (case pending s of
                  Some (pv, pendingOperation) \<Rightarrow>
                    (if \<not> shouldResetDisplay s then
                       (case calculate pv currentValue pendingOperation s of
                          (result, s') \<Rightarrow> s'\<lparr>previousValue := Some result\<rparr>)
                     else stored)
                | None \<Rightarrow> stored);
          s2 = s1\<lparr>currentOperation := Some operation\<rparr>;
          s3 = updateOperationDisplay (Some operation) (previousValue s2) s2
      in s3\<lparr>shouldResetDisplay := True\<rparr>)"

definition handleModulo :: "calc \<Rightarrow> calc" where
  "handleModulo s =
     (let currentValue = parseFloat (mainDisplay s);
          stored = s\<lparr>previousValue := Some currentValue, currentOperation := Some ''%''\<rparr>;
          s1 = (case pending s of
                  Some (pv, pendingOperation) \<Rightarrow>
                    (if \<not> shouldResetDisplay s then
                       (case calculate pv currentValue pendingOperation s of
                          (result, s') \<Rightarrow>
                            s'\<lparr>previousValue := Some result, currentOperation := Some ''%''\<rparr>)
                     else stored)
                | None \<Rightarrow> stored);
          s2 = updateOperationDisplay (Some ''%'') (previousValue s1) s1
      in s2\<lparr>shouldResetDisplay := True\<rparr>)"

definition handleSquare :: "calc \<Rightarrow> calc" where
  "handleSquare s =
     (let currentValue = parseFloat (mainDisplay s);
          result = js_mul currentValue currentValue
      in (updateDisplay (toString result) s)\<lparr>shouldResetDisplay := True\<rparr>)"

definition handleEquals :: "calc \<Rightarrow> calc" where
  "handleEquals s =
     (let currentValue = parseFloat (mainDisplay s) in
      case pending s of
        Some (pv, pendingOperation) \<Rightarrow>
          (case calculate pv currentValue pendingOperation s of
             (result, s') \<Rightarrow>
               (updateOperationDisplay None None
                  (s'\<lparr>previousValue := None, currentOperation := None\<rparr>))
               \<lparr>shouldResetDisplay := True\<rparr>)
      | None \<Rightarrow> s)"

definition handleClear :: "calc \<Rightarrow> calc" where
  "handleClear s =
     updateOperationDisplay None None
       (updateDisplay ''0''
          (s\<lparr>previousValue := None, currentOperation := None, shouldResetDisplay := True\<rparr>))"

definition handleBackspace :: "calc \<Rightarrow> calc" where
  "handleBackspace s =
     (let currentDisplay = mainDisplay s in
      if length currentDisplay > 1 then updateDisplay (butlast currentDisplay) s
      else (updateDisplay ''0'' s)\<lparr>shouldResetDisplay := True\<rparr>)"

section \<open>The public interface\<close>

text \<open>
  The listeners of \<^verbatim>\<open>initializeCalculator\<close> call one handler per button or key: a digit
  button passes its digit as a one-character string, the four operator buttons pass
  \<^verbatim>\<open>+\<close>, \<^verbatim>\<open>-\<close>, \<^verbatim>\<open>*\<close> and \<^verbatim>\<open>/\<close>.
\<close>

datatype event =
    Digit char
  | DecimalPoint
  | BinaryOperator string
  | Modulo
  | Square
  | Equals
  | Clear
  | Backspace

fun step :: "calc \<Rightarrow> event \<Rightarrow> calc" where
  "step s (Digit d) = handleNumberClick [d] s"
| "step s DecimalPoint = handleDecimal s"
| "step s (BinaryOperator operation) = handleOperation operation s"
| "step s Modulo = handleModulo s"
| "step s Square = handleSquare s"
| "step s Equals = handleEquals s"
| "step s Clear = handleClear s"
| "step s Backspace = handleBackspace s"

definition run :: "event list \<Rightarrow> calc" where
  "run es = foldl step initial es"



section \<open>Properties\<close>

text \<open>No operation is pending, the indicator is empty and the next keystroke starts a new number.\<close>

definition settled :: "string \<Rightarrow> calc \<Rightarrow> bool" where
  "settled d s = (mainDisplay s = d \<and> operationDisplay s = [] \<and> previousValue s = None \<and>
                  currentOperation s = None \<and> shouldResetDisplay s)"





text \<open>
  The finite Numbers: the zeros and the rationals that rounding to binary64 leaves as
  they are.
\<close>

fun is_double :: "jsnum \<Rightarrow> bool" where
  "is_double (Fin q) = (round_pos \<bar>q\<bar> = Some \<bar>q\<bar>)"
| "is_double NegZero = True"
| "is_double _ = False"

text \<open>
  The values a Number can hold: NaN, the infinities, the zeros and the finite binary64
  values.
\<close>

fun is_number :: "jsnum \<Rightarrow> bool" where
  "is_number (Fin q) = (round_pos \<bar>q\<bar> = Some \<bar>q\<bar>)"
| "is_number _ = True"

text \<open>
  Equality of Numbers as values: a Number equals itself (NaN included), and the two zeros
  equal each other, as they do under \<^verbatim>\<open>===\<close>.
\<close>

definition same_number :: "jsnum \<Rightarrow> jsnum \<Rightarrow> bool" where
  "same_number a b = (a = b \<or> (is_zero a \<and> is_zero b))"

text \<open>The pending operand, when there is one, is a Number.\<close>

definition pending_ok :: "calc \<Rightarrow> bool" where
  "pending_ok s = (case previousValue s of None \<Rightarrow> True | Some v \<Rightarrow> is_number v)"




text \<open>Truncation of a rational towards zero.\<close>

definition truncate :: "rat \<Rightarrow> int" where
  "truncate x = (if 0 \<le> x then \<lfloor>x\<rfloor> else \<lceil>x\<rceil>)"

subsection \<open>Arithmetic on the operands of the examples\<close>

text \<open>
  The handlers are reasoned about with the arithmetic and the conversions kept folded;
  each concrete operation is evaluated once, here.
\<close>

declare js_add.simps [simp del] toString.simps [simp del] shortest.simps [simp del]
  digits_of.simps [simp del]

lemma parseFloat_5: "parseFloat ''5'' = Fin 5"
  by code_simp

lemma parseFloat_3: "parseFloat ''3'' = Fin 3"
  by code_simp

lemma add_5_3: "js_add (Fin 5) (Fin 3) = Fin 8"
  by code_simp

lemma toString_8: "toString (Fin 8) = ''8''"
  by code_simp

lemmas handler_defs =
  handleNumberClick_def handleDecimal_def handleOperation_def handleModulo_def
  handleSquare_def handleEquals_def handleClear_def handleBackspace_def
  pending_def calculate_def updateDisplay_def Let_def

subsection \<open>A complete addition\<close>

lemma five_plus_three_from:
  assumes "previousValue s = None" and "shouldResetDisplay s"
  shows "settled ''8''
           (foldl step s [Digit CHR ''5'', BinaryOperator ''+'', Digit CHR ''3'', Equals])"
  using assms
  by (simp add: settled_def handler_defs performCalculation_def
        parseFloat_5 parseFloat_3 add_5_3 toString_8)

text \<open>
  C1. From the initial state, and from the state that clear leaves behind whatever came
  before, the inputs 5, +, 3, = end with Display Text \<open>8\<close>, an empty Operation
  Indicator, no Pending Operand, no Pending Operator and the Entry-Reset Flag set.
\<close>

theorem five_plus_three:
  "settled ''8'' (run [Digit CHR ''5'', BinaryOperator ''+'', Digit CHR ''3'', Equals]) \<and>
   settled ''8''
     (foldl step (handleClear s0) [Digit CHR ''5'', BinaryOperator ''+'', Digit CHR ''3'', Equals])"
proof
  show "settled ''8'' (run [Digit CHR ''5'', BinaryOperator ''+'', Digit CHR ''3'', Equals])"
    unfolding run_def by (rule five_plus_three_from) (simp_all add: initial_def)
  show "settled ''8''
     (foldl step (handleClear s0) [Digit CHR ''5'', BinaryOperator ''+'', Digit CHR ''3'', Equals])"
    by (rule five_plus_three_from) (simp_all add: handleClear_def updateDisplay_def)
qed


subsection \<open>Equals with a zero right-hand operand\<close>

lemma parseFloat_0: "parseFloat ''0'' = Fin 0"
  by code_simp

lemma toString_5: "toString (Fin 5) = ''5''"
  by code_simp

text \<open>
  C2. With a pending operand \<open>a\<close>, a pending operator \<^verbatim>\<open>/\<close> or \<^verbatim>\<open>%\<close> and a Display Text
  whose numeric value is zero, equals raises one notice, writes the text of \<open>a\<close> to the
  display, and clears the pending operand, the pending operator and the indicator and
  sets the Entry-Reset Flag, as every equals does. The model is total: nothing is thrown.
\<close>

theorem equals_zero_divisor:
  assumes "previousValue s = Some a"
    and "currentOperation s = Some operation"
    and "operation = ''/'' \<or> operation = ''%''"
    and "is_zero (parseFloat (mainDisplay s))"
  shows "handleEquals s =
           s\<lparr>alerts := alerts s @ [if operation = ''/'' then ''Cannot divide by zero!''
                                   else ''Cannot perform modulo with zero!''],
              mainDisplay := toString a,
              previousValue := None, currentOperation := None,
              operationDisplay := [], shouldResetDisplay := True\<rparr>"
  using assms by (auto simp add: handler_defs performCalculation_def)

theorem equals_zero_divisor_witness:
  "handleEquals (run [Digit CHR ''5'', BinaryOperator ''/'', Digit CHR ''0'']) =
     \<lparr>previousValue = None, currentOperation = None, shouldResetDisplay = True,
      mainDisplay = ''5'', operationDisplay = [], alerts = [''Cannot divide by zero!'']\<rparr>"
proof -
  have st: "run [Digit CHR ''5'', BinaryOperator ''/'', Digit CHR ''0''] =
     \<lparr>previousValue = Some (Fin 5), currentOperation = Some ''/'', shouldResetDisplay = False,
      mainDisplay = ''0'', operationDisplay = ''5 /'', alerts = []\<rparr>"
    by (simp add: run_def initial_def handler_defs parseFloat_5 toString_5)
  show ?thesis
    using equals_zero_divisor [of "run [Digit CHR ''5'', BinaryOperator ''/'', Digit CHR ''0'']"
        "Fin 5" "''/''"]
    by (simp add: st parseFloat_0 toString_5)
qed

subsection \<open>Pending operand and pending operator\<close>

lemma handleOperation_sets:
  "previousValue (handleOperation operation s) \<noteq> None \<and>
   currentOperation (handleOperation operation s) = Some operation"
  by (cases "pending s"; cases "operation = []")
     (auto simp add: handleOperation_def calculate_def updateDisplay_def Let_def
        split: prod.splits)

lemma handleEquals_clears:
  "handleEquals s = s \<or>
   (previousValue (handleEquals s) = None \<and> currentOperation (handleEquals s) = None)"
  by (cases "pending s")
     (auto simp add: handleEquals_def calculate_def updateDisplay_def Let_def split: prod.splits)

lemma step_pending_pair:
  assumes "(previousValue s = None) = (currentOperation s = None)"
  shows "(previousValue (step s e) = None) = (currentOperation (step s e) = None)"
proof (cases e)
  case (BinaryOperator operation)
  with handleOperation_sets [of operation s] show ?thesis by simp
next
  case Modulo
  have "handleModulo s = handleOperation ''%'' s"
    by (cases "pending s")
       (auto simp add: handleModulo_def handleOperation_def Let_def split: prod.splits)
  with Modulo handleOperation_sets [of "''%''" s] show ?thesis by simp
next
  case Equals
  with assms handleEquals_clears [of s] show ?thesis by auto
qed (use assms in \<open>simp_all add: handleNumberClick_def handleDecimal_def handleSquare_def
      handleClear_def handleBackspace_def updateDisplay_def Let_def\<close>)

lemma foldl_pending_pair:
  assumes "(previousValue s = None) = (currentOperation s = None)"
  shows "(previousValue (foldl step s es) = None) = (currentOperation (foldl step s es) = None)"
  using assms
proof (induction es arbitrary: s)
  case Nil
  then show ?case by simp
next
  case (Cons e es)
  from Cons.prems have "(previousValue (step s e) = None) = (currentOperation (step s e) = None)"
    by (rule step_pending_pair)
  then show ?case
    using Cons.IH by simp
qed

text \<open>
  C4. After every sequence of operations from the initial state, the pending operand is
  absent exactly when the pending operator is absent.
\<close>

theorem pending_pair:
  "(previousValue (run es) = None) = (currentOperation (run es) = None)"
  unfolding run_def by (rule foldl_pending_pair) (simp add: initial_def)

subsection \<open>Modulo\<close>

text \<open>
  C6. \<^verbatim>\<open>handleModulo\<close> is \<^verbatim>\<open>handleOperation\<close> at the operator \<^verbatim>\<open>%\<close>: the same successor
  state from every state, the pending calculation included.
\<close>

theorem modulo_is_operation:
  "handleModulo s = handleOperation ''%'' s \<and> step s Modulo = step s (BinaryOperator ''%'')"
  by (cases "pending s")
     (auto simp add: handleModulo_def handleOperation_def Let_def split: prod.splits)


subsection \<open>Square\<close>

lemma mul_5_5: "js_mul (Fin 5) (Fin 5) = Fin 25"
  by code_simp

lemma toString_25: "toString (Fin 25) = ''25''"
  by code_simp

text \<open>
  C8. Square writes the text of the product of the display's numeric value with itself
  and sets the Entry-Reset Flag; the pending operand, the pending operator (and the
  indicator and the notices) stay as they were. From the initial state, 5 then square
  shows \<open>25\<close>.
\<close>

theorem square_frame:
  "handleSquare s =
     s\<lparr>mainDisplay := toString (js_mul (parseFloat (mainDisplay s)) (parseFloat (mainDisplay s))),
        shouldResetDisplay := True\<rparr> \<and>
   previousValue (handleSquare s) = previousValue s \<and>
   currentOperation (handleSquare s) = currentOperation s \<and>
   mainDisplay (run [Digit CHR ''5'', Square]) = ''25'' \<and>
   mainDisplay (foldl step (handleClear s0) [Digit CHR ''5'', Square]) = ''25''"
  by (simp add: run_def initial_def handler_defs parseFloat_5 mul_5_5 toString_25)

subsection \<open>Editing the number being entered\<close>

text \<open>
  C10. A digit, the decimal point and backspace leave the pending operand, the pending
  operator and the Operation Indicator as they were.
\<close>

theorem editing_frame:
  "previousValue (handleNumberClick number s) = previousValue s \<and>
   currentOperation (handleNumberClick number s) = currentOperation s \<and>
   operationDisplay (handleNumberClick number s) = operationDisplay s \<and>
   previousValue (handleDecimal s) = previousValue s \<and>
   currentOperation (handleDecimal s) = currentOperation s \<and>
   operationDisplay (handleDecimal s) = operationDisplay s \<and>
   previousValue (handleBackspace s) = previousValue s \<and>
   currentOperation (handleBackspace s) = currentOperation s \<and>
   operationDisplay (handleBackspace s) = operationDisplay s"
  by (simp add: handler_defs)

subsection \<open>Backspace\<close>

lemma sub_0_5: "js_sub (Fin 0) (Fin 5) = Fin (- 5)"
  by code_simp

lemma toString_minus_5: "toString (Fin (- 5)) = ''-5''"
  by code_simp

text \<open>
  C7. Backspace drops the last character of a Display Text longer than one character and
  resets a shorter one to \<open>0\<close>, setting the Entry-Reset Flag. It looks at the length
  only: after clear, - 5 = the display is \<open>-5\<close>, and backspace leaves the lone sign
  \<open>-\<close> on the display instead of falling back to \<open>0\<close>.
\<close>

theorem backspace_leaves_sign:
  "handleBackspace s =
     (if length (mainDisplay s) > 1 then s\<lparr>mainDisplay := butlast (mainDisplay s)\<rparr>
      else s\<lparr>mainDisplay := ''0'', shouldResetDisplay := True\<rparr>) \<and>
   mainDisplay (run [Clear, BinaryOperator ''-'', Digit CHR ''5'', Equals]) = ''-5'' \<and>
   mainDisplay (run [Clear, BinaryOperator ''-'', Digit CHR ''5'', Equals, Backspace]) = ''-''"
  by (simp add: run_def initial_def handler_defs performCalculation_def
        parseFloat_0 parseFloat_5 sub_0_5 toString_minus_5)


subsection \<open>The grammar of Display Text\<close>






















subsection \<open>Rounding and the remainder\<close>

lemma ilog_bounds:
  assumes "0 < q" and "1 < b"
  shows "of_nat b powi (ilog b q) \<le> q" and "q < of_nat b powi (ilog b q + 1)"
proof -
  obtain p d where pd: "quotient_of q = (p, d)"
    by (cases "quotient_of q")
  then have d: "0 < d" and q: "q = of_int p / of_int d"
    by (simp_all add: quotient_of_denom_pos quotient_of_div)
  with assms(1) have p: "0 < p"
    by (simp add: zero_less_divide_iff)
  define B :: rat where "B = of_nat b"
  define fp where "fp = floorlog b (nat p)"
  define fd where "fd = floorlog b (nat d)"
  have B: "1 < B" "0 < B" "B \<noteq> 0"
    using assms(2) by (simp_all add: B_def)
  have bp: "b ^ (fp - 1) \<le> nat p" "nat p < b ^ fp"
    using floorlog_bounds [of "nat p" b] p assms(2) by (simp_all add: fp_def)
  have bd: "b ^ (fd - 1) \<le> nat d" "nat d < b ^ fd"
    using floorlog_bounds [of "nat d" b] d assms(2) by (simp_all add: fd_def)
  have fp1: "1 \<le> fp" and fd1: "1 \<le> fd"
    using p d assms(2) by (simp_all add: fp_def fd_def floorlog_def)
  have rp: "B ^ (fp - 1) \<le> of_int p" "of_int p < B ^ fp"
  proof -
    have "(of_nat (b ^ (fp - 1)) :: rat) \<le> of_nat (nat p)"
      using bp(1) by (simp only: of_nat_le_iff)
    then show "B ^ (fp - 1) \<le> of_int p"
      using p by (simp add: B_def)
    have "(of_nat (nat p) :: rat) < of_nat (b ^ fp)"
      using bp(2) by (simp only: of_nat_less_iff)
    then show "of_int p < B ^ fp"
      using p by (simp add: B_def)
  qed
  have rd: "B ^ (fd - 1) \<le> of_int d" "of_int d < B ^ fd"
  proof -
    have "(of_nat (b ^ (fd - 1)) :: rat) \<le> of_nat (nat d)"
      using bd(1) by (simp only: of_nat_le_iff)
    then show "B ^ (fd - 1) \<le> of_int d"
      using d by (simp add: B_def)
    have "(of_nat (nat d) :: rat) < of_nat (b ^ fd)"
      using bd(2) by (simp only: of_nat_less_iff)
    then show "of_int d < B ^ fd"
      using d by (simp add: B_def)
  qed
  define e where "e = int fp - int fd"
  have il: "ilog b q = (if B powi e \<le> q then e else e - 1)"
    by (simp add: ilog_def pd fp_def fd_def e_def B_def Let_def)
  have pe: "B powi e = B ^ fp / B ^ fd"
    using B by (simp add: e_def power_int_diff)
  have lower: "B powi (e - 1) \<le> q"
  proof -
    have "B powi (e - 1) = B ^ (fp - 1) / B ^ fd"
      using B fp1 by (simp add: e_def power_int_diff of_nat_diff flip: power_int_of_nat)
    also have "\<dots> \<le> of_int p / of_int d"
      using rp(1) rd(2) d p B by (intro frac_le) simp_all
    finally show ?thesis by (simp add: q)
  qed
  have upper: "q < B powi (e + 1)"
  proof -
    have "q = of_int p / of_int d" by (rule q)
    also have "\<dots> < B ^ fp / B ^ (fd - 1)"
      using rp(2) rd(1) d p B by (intro frac_less) simp_all
    also have "\<dots> = B powi (e + 1)"
    proof -
      have "e + 1 = int fp - int (fd - 1)"
        using fd1 by (simp add: e_def)
      then show ?thesis
        using B by (simp add: power_int_diff)
    qed
    finally show ?thesis .
  qed
  show "of_nat b powi (ilog b q) \<le> q"
    using lower by (simp add: il flip: B_def)
  show "q < of_nat b powi (ilog b q + 1)"
    using upper B by (auto simp add: il not_le simp flip: B_def)
qed


lemma powi_less_cancel:
  fixes a :: rat
  assumes "1 < a" and "a powi m < a powi n"
  shows "m < n"
proof (rule ccontr)
  assume "\<not> m < n"
  then have "a powi n \<le> a powi m"
    using assms(1) by (intro power_int_increasing) simp_all
  with assms(2) show False by simp
qed

lemma ilog_eqI:
  assumes "0 < q" and "1 < b" and "of_nat b powi n \<le> q" and "q < of_nat b powi (n + 1)"
  shows "ilog b q = n"
proof -
  have B: "1 < (of_nat b :: rat)"
    using assms(2) by simp
  have "of_nat b powi (ilog b q) < (of_nat b :: rat) powi (n + 1)"
    using ilog_bounds(1) [OF assms(1,2)] assms(4) by (rule le_less_trans)
  then have "ilog b q < n + 1"
    using B by (rule powi_less_cancel [rotated])
  moreover have "of_nat b powi n < (of_nat b :: rat) powi (ilog b q + 1)"
    using assms(3) ilog_bounds(2) [OF assms(1,2)] by (rule le_less_trans)
  then have "n < ilog b q + 1"
    using B by (rule powi_less_cancel [rotated])
  ultimately show ?thesis by simp
qed

lemma ilog_mono:
  assumes "0 < x" and "x \<le> y" and "1 < b"
  shows "ilog b x \<le> ilog b y"
proof -
  have B: "1 < (of_nat b :: rat)"
    using assms(3) by simp
  have y: "0 < y" using assms(1,2) by simp
  have "of_nat b powi (ilog b x) \<le> x"
    using assms(1,3) by (rule ilog_bounds(1))
  also have "x \<le> y" by fact
  also have "y < of_nat b powi (ilog b y + 1)"
    using y assms(3) by (rule ilog_bounds(2))
  finally have "ilog b x < ilog b y + 1"
    using B by (rule powi_less_cancel [rotated])
  then show ?thesis by simp
qed

lemma round_half_even_int: "round_half_even (of_int k) = k"
  by (simp add: round_half_even_def)

text \<open>A positive multiple of a power of two that is fine enough for its size is left fixed by rounding.\<close>

lemma round_pos_fixI:
  assumes "0 < q" and "q = of_int m * 2 powi e" and "- 1074 \<le> e" and "ilog 2 q - 52 \<le> e"
    and "ilog 2 q < 1024"
  shows "round_pos q = Some q"
proof -
  define E where "E = max (ilog 2 q - 52) (- 1074)"
  have E: "E \<le> e" using assms(3,4) by (simp add: E_def)
  then have split: "(2::rat) powi e = 2 powi (e - E) * 2 powi E"
    by (simp flip: power_int_add)
  have int: "(2::rat) powi (e - E) = of_int (2 ^ nat (e - E))"
    using E by (simp add: power_int_def)
  have "q / 2 powi E = of_int m * 2 powi (e - E)"
    by (simp add: assms(2) split)
  also have "\<dots> = of_int (m * 2 ^ nat (e - E))"
    by (simp only: int of_int_mult)
  finally have quot: "q / 2 powi E = of_int (m * 2 ^ nat (e - E))" .
  have "of_int (round_half_even (q / 2 powi E)) * 2 powi E = of_int (m * 2 ^ nat (e - E)) * 2 powi E"
    by (simp only: quot round_half_even_int)
  also have "\<dots> = q"
    by (simp only: of_int_mult flip: int) (simp add: assms(2) split)
  finally have "of_int (round_half_even (q / 2 powi E)) * 2 powi E = q" .
  then show ?thesis
    using assms(1,5) by (simp add: round_pos_def Let_def flip: E_def)
qed

lemma round_pos_fixD:
  assumes "0 < q" and "round_pos q = Some q"
  shows "\<exists>m. q = of_int m * 2 powi (max (ilog 2 q - 52) (- 1074))" and "ilog 2 q < 1024"
proof -
  from assms have eq: "of_int (round_half_even (q / 2 powi max (ilog 2 q - 52) (- 1074))) *
      2 powi max (ilog 2 q - 52) (- 1074) = q" and lt: "ilog 2 q < 1024"
    by (auto simp add: round_pos_def Let_def split: if_splits)
  from eq [symmetric] show "\<exists>m. q = of_int m * 2 powi (max (ilog 2 q - 52) (- 1074))" ..
  from lt show "ilog 2 q < 1024" .
qed


lemma rescale:
  assumes "e \<le> E"
  shows "of_int m * (2::rat) powi E = of_int (m * 2 ^ nat (E - e)) * 2 powi e"
proof -
  have "(2::rat) powi E = 2 powi (E - e) * 2 powi e"
    by (simp flip: power_int_add)
  moreover have "(2::rat) powi (E - e) = of_int (2 ^ nat (E - e))"
    using assms by (simp add: power_int_def)
  ultimately show ?thesis by simp
qed

text \<open>The remainder of two binary64 values is a binary64 value: no rounding takes place.\<close>

lemma remainder_fixed:
  assumes "0 < a" and "round_pos a = Some a" and "0 < b" and "round_pos b = Some b"
    and "r = a - b * of_int k" and "0 < r" and "r < b" and "r \<le> a"
  shows "round_pos r = Some r"
proof -
  define Ea where "Ea = max (ilog 2 a - 52) (- 1074)"
  define Eb where "Eb = max (ilog 2 b - 52) (- 1074)"
  define e where "e = min Ea Eb"
  obtain ma where ma: "a = of_int ma * 2 powi Ea" and la: "ilog 2 a < 1024"
    using round_pos_fixD [OF assms(1,2)] unfolding Ea_def by blast
  obtain mb where mb: "b = of_int mb * 2 powi Eb"
    using round_pos_fixD(1) [OF assms(3,4)] unfolding Eb_def by blast
  have a': "a = of_int (ma * 2 ^ nat (Ea - e)) * 2 powi e"
    unfolding ma by (rule rescale) (simp add: e_def)
  have b': "b = of_int (mb * 2 ^ nat (Eb - e)) * 2 powi e"
    unfolding mb by (rule rescale) (simp add: e_def)
  have "r = of_int (ma * 2 ^ nat (Ea - e)) * 2 powi e
              - of_int (mb * 2 ^ nat (Eb - e)) * 2 powi e * of_int k"
    unfolding assms(5) using a' b' by simp
  also have "\<dots> = of_int (ma * 2 ^ nat (Ea - e) - mb * 2 ^ nat (Eb - e) * k) * 2 powi e"
    by (simp add: algebra_simps)
  finally have r: "r = of_int (ma * 2 ^ nat (Ea - e) - mb * 2 ^ nat (Eb - e) * k) * 2 powi e" .
  have ra: "ilog 2 r \<le> ilog 2 a"
    using assms(6,8) by (intro ilog_mono) simp_all
  have rb: "ilog 2 r \<le> ilog 2 b"
    using assms(6,7) by (intro ilog_mono) simp_all
  show ?thesis
    using assms(6) r
  proof (rule round_pos_fixI)
    show "- 1074 \<le> e" by (simp add: e_def Ea_def Eb_def)
    show "ilog 2 r - 52 \<le> e" using ra rb by (simp add: e_def Ea_def Eb_def max_def)
    show "ilog 2 r < 1024" using ra la by simp
  qed
qed


lemma trunc_quot_truncate:
  assumes "d \<noteq> 0"
  shows "trunc_quot n d = truncate (n / d)"
proof -
  consider (z) "n = 0" | (pp) "0 < n" "0 < d" | (pn) "0 < n" "d < 0"
    | (np) "n < 0" "0 < d" | (nn) "n < 0" "d < 0"
    using assms by (cases n "0::rat" rule: linorder_cases; cases d "0::rat" rule: linorder_cases) auto
  then show ?thesis
  proof cases
    case z
    then show ?thesis by (simp add: trunc_quot_def truncate_def)
  next
    case pp
    then have "0 \<le> n / d" by simp
    with pp show ?thesis by (simp add: trunc_quot_def truncate_def)
  next
    case pn
    then have "n / d < 0" by (simp add: divide_neg_pos divide_pos_neg)
    moreover have "\<bar>n\<bar> / \<bar>d\<bar> = - (n / d)" using pn by simp
    ultimately show ?thesis using pn by (simp add: trunc_quot_def truncate_def ceiling_def)
  next
    case np
    then have "n / d < 0" by (simp add: divide_neg_pos)
    moreover have "\<bar>n\<bar> / \<bar>d\<bar> = - (n / d)" using np by simp
    ultimately show ?thesis using np by (simp add: trunc_quot_def truncate_def ceiling_def)
  next
    case nn
    then have "0 \<le> n / d" by (simp add: divide_neg_neg less_imp_le)
    moreover have "\<bar>n\<bar> / \<bar>d\<bar> = n / d" using nn by simp
    ultimately show ?thesis using nn by (simp add: trunc_quot_def truncate_def)
  qed
qed


lemma floor_quotient_bounds:
  fixes x y :: rat
  assumes "0 < y" and "0 \<le> x"
  shows "0 \<le> x - y * of_int \<lfloor>x / y\<rfloor>" and "x - y * of_int \<lfloor>x / y\<rfloor> < y"
    and "x - y * of_int \<lfloor>x / y\<rfloor> \<le> x"
proof -
  have "of_int \<lfloor>x / y\<rfloor> \<le> x / y" by (rule of_int_floor_le)
  then have "of_int \<lfloor>x / y\<rfloor> * y \<le> x"
    using assms(1) by (simp only: pos_le_divide_eq)
  then show "0 \<le> x - y * of_int \<lfloor>x / y\<rfloor>" by (simp add: mult.commute)
  have "x / y < of_int \<lfloor>x / y\<rfloor> + 1" by linarith
  then have "x < (of_int \<lfloor>x / y\<rfloor> + 1) * y"
    using assms(1) by (simp only: pos_divide_less_eq)
  then show "x - y * of_int \<lfloor>x / y\<rfloor> < y" by (simp add: algebra_simps)
  have "0 \<le> x / y" using assms by simp
  then have "0 \<le> \<lfloor>x / y\<rfloor>" by simp
  then have "0 \<le> y * of_int \<lfloor>x / y\<rfloor>" using assms(1) by simp
  then show "x - y * of_int \<lfloor>x / y\<rfloor> \<le> x" by simp
qed

lemma signed_remainder:
  assumes "qb \<noteq> 0"
  shows "qa - qb * of_int (trunc_quot qa qb) =
           (if qa < 0 then - (\<bar>qa\<bar> - \<bar>qb\<bar> * of_int \<lfloor>\<bar>qa\<bar> / \<bar>qb\<bar>\<rfloor>)
            else \<bar>qa\<bar> - \<bar>qb\<bar> * of_int \<lfloor>\<bar>qa\<bar> / \<bar>qb\<bar>\<rfloor>)"
  using assms by (cases "qa < 0"; cases "qb < 0") (simp_all add: trunc_quot_def algebra_simps)

lemma js_rem_finite:
  assumes "is_double a" and "is_double b" and "\<not> is_zero b"
  shows "is_finite (js_rem a b) \<and>
         real_of a = of_int (truncate (real_of a / real_of b)) * real_of b + real_of (js_rem a b) \<and>
         \<bar>real_of (js_rem a b)\<bar> < \<bar>real_of b\<bar> \<and>
         is_neg (js_rem a b) = is_neg a"
proof -
  from assms(2,3) obtain qb where b: "b = Fin qb" and qb: "qb \<noteq> 0"
    and fb: "round_pos \<bar>qb\<bar> = Some \<bar>qb\<bar>"
    by (cases b) auto
  show ?thesis
  proof (cases "is_zero a")
    case True
    with assms(1) have "js_rem a b = a" "real_of a = 0" "is_finite a"
      by (cases a; simp add: js_rem_def b qb)+
    then show ?thesis
      using qb by (simp add: b truncate_def)
  next
    case False
    with assms(1) obtain qa where a: "a = Fin qa" and qa: "qa \<noteq> 0"
      and fa: "round_pos \<bar>qa\<bar> = Some \<bar>qa\<bar>"
      by (cases a) auto
    define R where "R = \<bar>qa\<bar> - \<bar>qb\<bar> * of_int \<lfloor>\<bar>qa\<bar> / \<bar>qb\<bar>\<rfloor>"
    define r where "r = qa - qb * of_int (trunc_quot qa qb)"
    have R: "0 \<le> R" "R < \<bar>qb\<bar>" "R \<le> \<bar>qa\<bar>"
      unfolding R_def using floor_quotient_bounds [of "\<bar>qb\<bar>" "\<bar>qa\<bar>"] qb by simp_all
    have r: "r = (if qa < 0 then - R else R)"
      unfolding r_def R_def using qb by (rule signed_remainder)
    have eq: "qa = of_int (truncate (qa / qb)) * qb + r"
      using qb by (simp add: r_def trunc_quot_truncate)
    have res: "js_rem a b = (if r = 0 then (if qa < 0 then NegZero else Fin 0) else to_number r)"
      by (simp add: js_rem_def a b qa qb r_def Let_def)
    show ?thesis
    proof (cases "r = 0")
      case True
      with res eq R qb show ?thesis
        by (simp add: a b)
    next
      case False
      then have Rpos: "0 < R" and absr: "\<bar>r\<bar> = R" and neg: "(r < 0) = (qa < 0)"
        using R(1) by (auto simp add: r split: if_splits)
      have "round_pos R = Some R"
        using _ fa _ fb R_def Rpos R(2,3) by (rule remainder_fixed) (use qa qb in simp_all)
      then have "to_number r = Fin r"
        using False Rpos by (simp add: to_number_def absr neg r)
      with res False eq R(2) absr neg show ?thesis
        by (simp add: a b)
    qed
  qed
qed

lemma is_double_minus_7: "is_double (Fin (- 7))"
  by code_simp

lemma is_double_3: "is_double (Fin 3)"
  by code_simp

lemma rem_minus_7_3: "js_rem (Fin (- 7)) (Fin 3) = Fin (- 1)"
  by code_simp

lemma round_pos_3: "round_pos 3 = Some 3"
  by code_simp

text \<open>
  C9, as stated for all numbers, fails: an infinite dividend is a Number, and
  \<^verbatim>\<open>Infinity % 3\<close> is NaN, which is no remainder of any quotient.
\<close>

theorem modulo_infinite_counterexample:
  "is_number PosInf \<and> is_number (Fin 3) \<and> \<not> is_zero (Fin 3) \<and>
   performCalculation PosInf (Fin 3) ''%'' = (NaN, []) \<and>
   \<not> (\<exists>r. performCalculation PosInf (Fin 3) ''%'' = (r, []) \<and> is_finite r \<and>
          real_of PosInf = of_int (truncate (real_of PosInf / real_of (Fin 3))) * real_of (Fin 3)
            + real_of r \<and>
          \<bar>real_of r\<bar> < \<bar>real_of (Fin 3)\<bar> \<and>
          is_neg r = is_neg PosInf)"
  by (simp add: performCalculation_def js_rem_def round_pos_3)

text \<open>
  C9, amended. For finite Numbers \<open>a\<close> and \<open>b\<close>, \<open>b\<close> not zero, the operator \<^verbatim>\<open>%\<close>
  raises no notice and returns a finite \<open>r\<close> with \<open>a = q * b + r\<close>, where \<open>q\<close> is the
  quotient \<open>a / b\<close> truncated towards zero, \<open>r\<close> is smaller than \<open>b\<close> in magnitude, and
  \<open>r\<close> (a zero \<open>r\<close> included) has the sign of \<open>a\<close>.
\<close>

theorem modulo_truncating:
  assumes "is_double a" and "is_double b" and "\<not> is_zero b"
  shows "\<exists>r. performCalculation a b ''%'' = (r, []) \<and> is_finite r \<and>
           real_of a = of_int (truncate (real_of a / real_of b)) * real_of b + real_of r \<and>
           \<bar>real_of r\<bar> < \<bar>real_of b\<bar> \<and>
           is_neg r = is_neg a"
  using js_rem_finite [OF assms] assms(3) by (simp add: performCalculation_def)

theorem modulo_truncating_witness:
  "performCalculation (Fin (- 7)) (Fin 3) ''%'' = (Fin (- 1), []) \<and>
   (\<exists>r. performCalculation (Fin (- 7)) (Fin 3) ''%'' = (r, []) \<and> is_finite r \<and>
      real_of (Fin (- 7)) = of_int (truncate (real_of (Fin (- 7)) / real_of (Fin 3))) * real_of (Fin 3)
        + real_of r \<and>
      \<bar>real_of r\<bar> < \<bar>real_of (Fin 3)\<bar> \<and>
      is_neg r = is_neg (Fin (- 7)))"
  using modulo_truncating [OF is_double_minus_7 is_double_3]
  by (simp add: performCalculation_def rem_minus_7_3)


subsection \<open>Rounding twice\<close>

lemma round_half_even_range:
  "\<lfloor>x\<rfloor> \<le> round_half_even x" "round_half_even x \<le> \<lfloor>x\<rfloor> + 1"
  by (simp_all add: round_half_even_def Let_def)

lemma round_half_even_less:
  assumes "x < of_int N"
  shows "round_half_even x \<le> N"
proof -
  from assms have "\<lfloor>x\<rfloor> < N" by (simp add: floor_less_iff)
  with round_half_even_range(2) [of x] show ?thesis by simp
qed

lemma round_half_even_nonneg:
  assumes "0 \<le> x"
  shows "0 \<le> round_half_even x"
proof -
  from assms have "0 \<le> \<lfloor>x\<rfloor>" by simp
  then show ?thesis using round_half_even_range(1) [of x] by (rule order_trans)
qed

text \<open>Rounding is idempotent: what it returns is a binary64 value.\<close>

lemma round_pos_idem:
  assumes "0 \<le> q" and "round_pos q = Some v"
  shows "0 \<le> v" and "round_pos v = Some v"
proof -
  have "0 \<le> v \<and> round_pos v = Some v"
  proof (cases "q = 0")
    case True
    with assms(2) show ?thesis by (simp add: round_pos_def)
  next
    case False
    with assms(1) have q: "0 < q" by simp
    define e where "e = max (ilog 2 q - 52) (- 1074)"
    define m where "m = round_half_even (q / 2 powi e)"
    from assms(2) False have v: "v = of_int m * 2 powi e" and lv: "ilog 2 v < 1024"
      by (auto simp add: round_pos_def Let_def m_def e_def split: if_splits)
    have e1: "ilog 2 q + 1 \<le> e + 53" and e2: "- 1074 \<le> e"
      by (simp_all add: e_def)
    have "q < 2 powi (ilog 2 q + 1)"
      using ilog_bounds(2) [OF q, of 2] by simp
    also have "\<dots> \<le> 2 powi (e + 53)"
      using e1 by (intro power_int_increasing) simp_all
    also have "\<dots> = 2 powi e * 2 ^ 53"
      by (simp add: power_int_add)
    finally have "q / 2 powi e < 2 ^ 53"
      by (simp add: pos_divide_less_eq mult.commute)
    then have "q / 2 powi e < of_int (2 ^ 53)" by simp
    then have m53: "m \<le> 2 ^ 53"
      unfolding m_def by (rule round_half_even_less)
    have m0: "0 \<le> m"
      unfolding m_def using q by (intro round_half_even_nonneg) simp
    show ?thesis
    proof (cases "m = 0")
      case True
      then show ?thesis by (simp add: v round_pos_def)
    next
      case False
      with m0 have mpos: "0 < m" by simp
      then have vpos: "0 < v" by (simp add: v)
      show ?thesis
      proof (cases "m = 2 ^ 53")
        case True
        have v53: "v = 2 powi (e + 53)"
          by (simp add: v True power_int_add mult.commute)
        have "ilog 2 v = e + 53"
          using vpos by (rule ilog_eqI) (simp_all add: v53 power_int_add)
        moreover have "v = of_int (2 ^ 52) * 2 powi (e + 1)"
          by (simp add: v53 power_int_add)
        ultimately have "round_pos v = Some v"
          using vpos e2 lv by (intro round_pos_fixI [of v "2 ^ 52" "e + 1"]) simp_all
        with vpos show ?thesis by simp
      next
        case False
        with m53 have "m < 2 ^ 53" by simp
        then have "(of_int m :: rat) < of_int (2 ^ 53)"
          by (simp only: of_int_less_iff)
        then have "v < 2 ^ 53 * 2 powi e"
          unfolding v by (intro mult_strict_right_mono) simp_all
        also have "\<dots> = 2 powi (e + 53)"
          by (simp add: power_int_add mult.commute)
        finally have "v < 2 powi (e + 53)" .
        with ilog_bounds(1) [OF vpos, of 2] have "(2::rat) powi (ilog 2 v) < 2 powi (e + 53)"
          by simp
        then have "ilog 2 v < e + 53"
          by (intro powi_less_cancel [of 2]) simp_all
        then have "round_pos v = Some v"
          using vpos v e2 lv by (intro round_pos_fixI [of v m e]) simp_all
        with vpos show ?thesis by simp
      qed
    qed
  qed
  then show "0 \<le> v" and "round_pos v = Some v" by simp_all
qed

subsection \<open>Digit strings\<close>

lemma digit_char:
  assumes "d < 10"
  shows "is_digit (char_of (48 + d))" and "digit_val (char_of (48 + d)) = d"
  using assms by (simp_all add: is_digit_def digit_val_def)

lemma digits_of_digits: "list_all is_digit (digits_of n)"
proof (induction n rule: digits_of.induct)
  case (1 n)
  show ?case
  proof (cases "n < 10")
    case True
    then show ?thesis
      by (subst digits_of.simps) (simp add: digit_char)
  next
    case False
    with 1 show ?thesis
      by (subst digits_of.simps) (simp add: digit_char)
  qed
qed

lemma digits_val_snoc: "digits_val (xs @ [c]) = 10 * digits_val xs + digit_val c"
  by (simp add: digits_val_def)

lemma digits_val_append:
  "digits_val (xs @ ys) = digits_val xs * 10 ^ length ys + digits_val ys"
proof (induction ys rule: rev_induct)
  case Nil
  show ?case by (simp add: digits_val_def)
next
  case (snoc c ys)
  have "digits_val (xs @ ys @ [c]) = 10 * digits_val (xs @ ys) + digit_val c"
    using digits_val_snoc [of "xs @ ys" c] by simp
  then show ?case
    by (simp add: snoc.IH digits_val_snoc algebra_simps)
qed

lemma digits_val_digits_of: "digits_val (digits_of n) = n"
proof (induction n rule: digits_of.induct)
  case (1 n)
  show ?case
  proof (cases "n < 10")
    case True
    then show ?thesis
      by (subst digits_of.simps) (simp add: digits_val_def digit_char)
  next
    case False
    with 1 show ?thesis
      by (subst digits_of.simps) (simp add: digits_val_snoc digit_char)
  qed
qed

lemma digits_val_zeros: "digits_val (replicate z CHR ''0'') = 0"
proof (induction z)
  case 0
  show ?case by (simp add: digits_val_def)
next
  case (Suc z)
  have "replicate (Suc z) CHR ''0'' = replicate z CHR ''0'' @ [CHR ''0'']"
    by (simp add: replicate_append_same)
  then show ?case
    by (simp only: digits_val_snoc Suc) (simp add: digit_val_def)
qed

lemma length_digits_of:
  assumes "1 \<le> k" and "10 ^ (k - 1) \<le> n" and "n < 10 ^ k"
  shows "length (digits_of n) = k"
  using assms
proof (induction n arbitrary: k rule: digits_of.induct)
  case (1 n)
  show ?case
  proof (cases "n < 10")
    case True
    have "k = 1"
    proof (rule ccontr)
      assume "k \<noteq> 1"
      with "1.prems"(1) have "2 \<le> k" by simp
      then have "(10::nat) ^ 1 \<le> 10 ^ (k - 1)"
        by (intro power_increasing) simp_all
      with "1.prems"(2) True show False by simp
    qed
    with True show ?thesis
      by (subst digits_of.simps) simp
  next
    case False
    have k2: "2 \<le> k"
    proof (rule ccontr)
      assume "\<not> 2 \<le> k"
      with "1.prems"(1) have "k = 1" by simp
      with "1.prems"(3) False show False by simp
    qed
    then obtain j where k: "k = Suc (Suc j)"
      by (metis Suc_le_D numeral_2_eq_2 Suc_le_mono)
    have "10 ^ (Suc j - 1) \<le> n div 10"
      using "1.prems"(2) by (simp add: k less_eq_div_iff_mult_less_eq)
    moreover have "n div 10 < 10 ^ Suc j"
      using "1.prems"(3) by (simp add: k div_less_iff_less_mult)
    ultimately have "length (digits_of (n div 10)) = Suc j"
      using False by (intro "1.IH") simp_all
    with False show ?thesis
      by (subst digits_of.simps) (simp add: k)
  qed
qed

lemma split_digits:
  assumes "list_all is_digit ds" and "r = [] \<or> \<not> is_digit (hd r)"
  shows "takeWhile is_digit (ds @ r) = ds" and "dropWhile is_digit (ds @ r) = r"
proof -
  from assms(2) have "takeWhile is_digit r = []" and "dropWhile is_digit r = r"
    by (cases r; auto)+
  with assms(1) show "takeWhile is_digit (ds @ r) = ds" and "dropWhile is_digit (ds @ r) = r"
    by (simp_all add: list_all_iff takeWhile_append2 dropWhile_append2)
qed

lemma not_digit_chars: "\<not> is_digit CHR ''.''" "\<not> is_digit CHR ''e''" "\<not> is_digit CHR ''-''"
  "\<not> is_digit CHR ''+''" "\<not> is_digit CHR ''I''"
  by (simp_all add: is_digit_def)

lemma parse_whole:
  assumes "list_all is_digit ip" and "ip \<noteq> []"
  shows "parse_unsigned ip = Some (of_nat (digits_val ip))"
proof -
  have tw: "takeWhile is_digit ip = ip" "dropWhile is_digit ip = []"
    using split_digits [OF assms(1), of "[]"] by simp_all
  show ?thesis
    using assms(2) by (simp add: parse_unsigned_def tw)
qed

lemma parse_point:
  assumes "list_all is_digit ip" and "ip \<noteq> []" and "list_all is_digit fp"
    and "r = [] \<or> \<not> is_digit (hd r)"
  shows "parse_unsigned (ip @ CHR ''.'' # fp @ r) =
           Some (of_nat (digits_val (ip @ fp)) / 10 ^ length fp * 10 powi exponent_part r)"
proof -
  have tw: "takeWhile is_digit (ip @ CHR ''.'' # fp @ r) = ip"
    "dropWhile is_digit (ip @ CHR ''.'' # fp @ r) = CHR ''.'' # fp @ r"
    using split_digits [OF assms(1), of "CHR ''.'' # fp @ r"] by (simp_all add: not_digit_chars)
  have tw': "takeWhile is_digit (fp @ r) = fp" "dropWhile is_digit (fp @ r) = r"
    using split_digits [OF assms(3,4)] by simp_all
  show ?thesis
    using assms(2) by (simp add: parse_unsigned_def tw tw')
qed

lemma parse_exp:
  assumes "list_all is_digit ip" and "ip \<noteq> []"
  shows "parse_unsigned (ip @ CHR ''e'' # r) =
           Some (of_nat (digits_val ip) * 10 powi exponent_part (CHR ''e'' # r))"
proof -
  have tw: "takeWhile is_digit (ip @ CHR ''e'' # r) = ip"
    "dropWhile is_digit (ip @ CHR ''e'' # r) = CHR ''e'' # r"
    using split_digits [OF assms(1), of "CHR ''e'' # r"] by (simp_all add: not_digit_chars)
  show ?thesis
    using assms(2) by (simp add: parse_unsigned_def tw)
qed

lemma exponent_part_signed:
  "exponent_part (CHR ''e'' # (if 0 \<le> e then ''+'' else ''-'') @ digits_of (nat \<bar>e\<bar>)) = e"
proof -
  have tw: "takeWhile is_digit (digits_of n) = digits_of n" for n
    using split_digits(1) [OF digits_of_digits, of "[]"] by simp
  show ?thesis
    by (simp add: digits_val_digits_of tw)
qed

lemma powi_nonneg: "0 \<le> e \<Longrightarrow> (10::rat) powi e = 10 ^ nat e"
  by (simp add: power_int_def)

lemma powi_neg: "e \<le> 0 \<Longrightarrow> (10::rat) powi e = 1 / 10 ^ nat (- e)"
  by (cases "e = 0") (simp_all add: power_int_def field_simps)

lemma zeros_digits: "list_all is_digit (replicate z CHR ''0'')"
  by (induction z) (simp_all add: is_digit_def)

lemma head_digit:
  assumes "list_all is_digit ds" and "ds \<noteq> []"
  shows "\<exists>c rest. ds @ r = c # rest \<and> is_digit c"
  using assms by (cases ds) simp_all

lemma format_digits_exp:
  assumes "\<not> (int k \<le> n \<and> n \<le> 21)" and "\<not> (0 < n \<and> n \<le> 21)" and "\<not> (- 6 < n \<and> n \<le> 0)"
  shows "format_digits k s n =
           (if k = 1
            then digits_of s @ CHR ''e'' # (if 0 \<le> n - 1 then ''+'' else ''-'') @ digits_of (nat \<bar>n - 1\<bar>)
            else take 1 (digits_of s) @ CHR ''.'' # drop 1 (digits_of s) @
                 CHR ''e'' # (if 0 \<le> n - 1 then ''+'' else ''-'') @ digits_of (nat \<bar>n - 1\<bar>))"
proof -
  have "format_digits k s n =
     (let e = n - 1;
          es = (if 0 \<le> e then ''+'' else ''-'') @ digits_of (nat \<bar>e\<bar>)
      in if k = 1 then digits_of s @ ''e'' @ es
         else take 1 (digits_of s) @ ''.'' @ drop 1 (digits_of s) @ ''e'' @ es)"
    unfolding format_digits_def Let_def using assms by (simp only: if_False)
  then show ?thesis
    by (simp add: Let_def)
qed

lemma parse_format:
  assumes "1 \<le> k" and "10 ^ (k - 1) \<le> s" and "s < 10 ^ k"
  shows "parse_unsigned (format_digits k s n) = Some (of_nat s * 10 powi (n - int k))"
    and "\<exists>c rest. format_digits k s n = c # rest \<and> is_digit c"
proof -
  define ds where "ds = digits_of s"
  have len: "length ds = k"
    unfolding ds_def using assms by (rule length_digits_of)
  have dig: "list_all is_digit ds"
    unfolding ds_def by (rule digits_of_digits)
  have val: "digits_val ds = s"
    unfolding ds_def by (rule digits_val_digits_of)
  have ne: "ds \<noteq> []"
    using len assms(1) by auto
  consider (int) "int k \<le> n" "n \<le> 21"
    | (point) "\<not> (int k \<le> n \<and> n \<le> 21)" "0 < n" "n \<le> 21"
    | (small) "\<not> (int k \<le> n \<and> n \<le> 21)" "\<not> (0 < n \<and> n \<le> 21)" "- 6 < n" "n \<le> 0"
    | (exp1) "\<not> (int k \<le> n \<and> n \<le> 21)" "\<not> (0 < n \<and> n \<le> 21)" "\<not> (- 6 < n \<and> n \<le> 0)" "k = 1"
    | (expk) "\<not> (int k \<le> n \<and> n \<le> 21)" "\<not> (0 < n \<and> n \<le> 21)" "\<not> (- 6 < n \<and> n \<le> 0)" "k \<noteq> 1"
    by blast
  then have "parse_unsigned (format_digits k s n) = Some (of_nat s * 10 powi (n - int k)) \<and>
             (\<exists>c rest. format_digits k s n = c # rest \<and> is_digit c)"
  proof cases
    case int
    define zs where "zs = replicate (nat n - k) CHR ''0''"
    have f: "format_digits k s n = ds @ zs"
      using int by (simp add: format_digits_def Let_def ds_def zs_def)
    have "list_all is_digit (ds @ zs)"
      using dig by (simp add: zs_def zeros_digits)
    then have "parse_unsigned (ds @ zs) = Some (of_nat (digits_val (ds @ zs)))"
      using ne by (intro parse_whole) simp_all
    moreover have "digits_val (ds @ zs) = s * 10 ^ (nat n - k)"
      by (simp add: digits_val_append val zs_def digits_val_zeros)
    moreover have "(10::rat) powi (n - int k) = 10 ^ (nat n - k)"
      using int by (simp add: powi_nonneg nat_diff_distrib)
    ultimately show ?thesis
      unfolding f using head_digit [OF dig ne, of zs] by simp
  next
    case point
    then have n: "nat n < k" "0 < nat n" by simp_all
    have f: "format_digits k s n = take (nat n) ds @ CHR ''.'' # drop (nat n) ds @ []"
      using point by (simp add: format_digits_def Let_def ds_def)
    have d1: "list_all is_digit (take (nat n) ds)" and d2: "list_all is_digit (drop (nat n) ds)"
      using dig by (auto simp add: list_all_iff dest: in_set_takeD in_set_dropD)
    have ne1: "take (nat n) ds \<noteq> []"
      using n ne by simp
    have "parse_unsigned (take (nat n) ds @ CHR ''.'' # drop (nat n) ds @ []) =
            Some (of_nat (digits_val (take (nat n) ds @ drop (nat n) ds))
                    / 10 ^ length (drop (nat n) ds) * 10 powi exponent_part [])"
      using d1 ne1 d2 by (rule parse_point) simp
    moreover have "(10::rat) powi (n - int k) = 1 / 10 ^ (k - nat n)"
      using point n by (simp add: powi_neg nat_diff_distrib)
    ultimately show ?thesis
      unfolding f using head_digit [OF d1 ne1, of "CHR ''.'' # drop (nat n) ds @ []"]
      by (simp add: val len del: append_Nil2)
  next
    case small
    define zs where "zs = replicate (nat (- n)) CHR ''0''"
    have f: "format_digits k s n = ''0'' @ CHR ''.'' # (zs @ ds) @ []"
      using small by (simp add: format_digits_def Let_def ds_def zs_def)
    have d0: "list_all is_digit ''0''" by (simp add: is_digit_def)
    have d2: "list_all is_digit (zs @ ds)"
      using dig by (simp add: zs_def zeros_digits)
    have "parse_unsigned (''0'' @ CHR ''.'' # (zs @ ds) @ []) =
            Some (of_nat (digits_val (''0'' @ zs @ ds)) / 10 ^ length (zs @ ds)
                    * 10 powi exponent_part [])"
      using d0 _ d2 by (rule parse_point) simp_all
    moreover have "digits_val (''0'' @ zs @ ds) = s"
    proof -
      have "digits_val ''0'' = 0"
        by (simp add: digits_val_def digit_val_def)
      moreover have "digits_val (zs @ ds) = s"
        by (simp add: digits_val_append val zs_def digits_val_zeros)
      moreover have "digits_val (''0'' @ (zs @ ds)) =
          digits_val ''0'' * 10 ^ length (zs @ ds) + digits_val (zs @ ds)"
        by (rule digits_val_append)
      ultimately show ?thesis
        by simp
    qed
    moreover have "(10::rat) powi (n - int k) = 1 / 10 ^ (nat (- n) + k)"
      using small by (simp add: powi_neg nat_diff_distrib nat_add_distrib)
    ultimately show ?thesis
      unfolding f by (simp add: len zs_def is_digit_def del: append_Nil2)
  next
    case exp1
    define es where "es = (if 0 \<le> n - 1 then ''+'' else ''-'') @ digits_of (nat \<bar>n - 1\<bar>)"
    have f: "format_digits k s n = ds @ CHR ''e'' # es"
      using format_digits_exp [OF exp1(1-3), of s] exp1(4) by (simp add: ds_def es_def)
    have "parse_unsigned (ds @ CHR ''e'' # es) =
            Some (of_nat (digits_val ds) * 10 powi exponent_part (CHR ''e'' # es))"
      using dig ne by (rule parse_exp)
    moreover have "exponent_part (CHR ''e'' # es) = n - 1"
      unfolding es_def by (rule exponent_part_signed)
    ultimately show ?thesis
      unfolding f using head_digit [OF dig ne, of "CHR ''e'' # es"] exp1(4) by (simp add: val)
  next
    case expk
    define es where "es = (if 0 \<le> n - 1 then ''+'' else ''-'') @ digits_of (nat \<bar>n - 1\<bar>)"
    have k: "2 \<le> k" using expk(4) assms(1) by simp
    have f: "format_digits k s n = take 1 ds @ CHR ''.'' # drop 1 ds @ CHR ''e'' # es"
      using format_digits_exp [OF expk(1-3), of s] expk(4) by (simp add: ds_def es_def)
    have d1: "list_all is_digit (take 1 ds)" and d2: "list_all is_digit (drop 1 ds)"
      using dig by (auto simp add: list_all_iff dest: in_set_takeD in_set_dropD)
    have ne1: "take 1 ds \<noteq> []"
      using ne by simp
    have "parse_unsigned (take 1 ds @ CHR ''.'' # drop 1 ds @ CHR ''e'' # es) =
            Some (of_nat (digits_val (take 1 ds @ drop 1 ds)) / 10 ^ length (drop 1 ds)
                    * 10 powi exponent_part (CHR ''e'' # es))"
      using d1 ne1 d2 by (rule parse_point) (simp add: not_digit_chars)
    moreover have "exponent_part (CHR ''e'' # es) = n - 1"
      unfolding es_def by (rule exponent_part_signed)
    moreover have "(10::rat) powi (n - int k) = 10 powi (n - 1) / 10 ^ (k - 1)"
    proof -
      have "n - int k = (n - 1) - int (k - 1)" using k by simp
      then have "(10::rat) powi (n - int k) = 10 powi ((n - 1) - int (k - 1))"
        by (rule arg_cong)
      also have "\<dots> = 10 powi (n - 1) / 10 powi int (k - 1)"
        by (rule power_int_diff) simp
      finally show ?thesis by simp
    qed
    ultimately show ?thesis
      unfolding f using head_digit [OF d1 ne1, of "CHR ''.'' # drop 1 ds @ CHR ''e'' # es"]
      by (simp add: val len)
  qed
  then show "parse_unsigned (format_digits k s n) = Some (of_nat s * 10 powi (n - int k))"
    and "\<exists>c rest. format_digits k s n = c # rest \<and> is_digit c"
    by simp_all
qed

subsection \<open>The digits chosen for a Number\<close>

lemma nearest_cases: "nearest y lo = lo \<or> nearest y lo = lo + 1"
  by (simp add: nearest_def Let_def)

lemma scaled_bounds:
  assumes "0 < x" and "1 \<le> k"
  defines "y \<equiv> x / 10 powi (ilog 10 x + 1 - int k)"
  shows "10 ^ (k - 1) \<le> y" and "y < 10 ^ k"
proof -
  define L where "L = ilog 10 x"
  have b: "10 powi L \<le> x" "x < 10 powi (L + 1)"
    using ilog_bounds [OF assms(1), of 10] by (simp_all add: L_def)
  have t: "(10::rat) powi (L + 1 - int k) = 10 powi L / 10 ^ (k - 1)"
  proof -
    have "L + 1 - int k = L - int (k - 1)" using assms(2) by simp
    then have "(10::rat) powi (L + 1 - int k) = 10 powi (L - int (k - 1))"
      by (rule arg_cong)
    also have "\<dots> = 10 powi L / 10 powi int (k - 1)"
      by (rule power_int_diff) simp
    finally show ?thesis by simp
  qed
  have pos: "0 < (10::rat) powi L" by simp
  define z where "z = x / 10 powi L"
  have y: "y = z * 10 ^ (k - 1)"
    by (simp add: y_def t z_def flip: L_def)
  have "1 \<le> z"
    unfolding z_def using b(1) pos by (simp add: pos_le_divide_eq)
  then have "1 * 10 ^ (k - 1) \<le> z * 10 ^ (k - 1)"
    by (rule mult_right_mono) simp
  moreover have "z < 10"
    unfolding z_def using b(2) pos by (simp add: pos_divide_less_eq power_int_add mult.commute)
  then have "z * 10 ^ (k - 1) < 10 * 10 ^ (k - 1)"
    by (rule mult_strict_right_mono) simp
  ultimately have "1 * 10 ^ (k - 1) \<le> y" and "y < 10 * 10 ^ (k - 1)"
    by (simp_all only: y)
  moreover have "(10::rat) * 10 ^ (k - 1) = 10 ^ k"
    using assms(2) by (cases k) simp_all
  ultimately show "10 ^ (k - 1) \<le> y" and "y < 10 ^ k" by simp_all
qed

lemma candidate_valid:
  assumes "0 < x" and "1 \<le> k" and "candidate k x = Some (s, n)"
  shows "10 ^ (k - 1) \<le> s" and "s < 10 ^ k"
    and "round_pos (of_nat s * 10 powi (n - int k)) = Some x"
proof -
  define t where "t = ilog 10 x + 1 - int k"
  define y where "y = x / 10 powi t"
  define lo where "lo = \<lfloor>y\<rfloor>"
  have yb: "10 ^ (k - 1) \<le> y" "y < 10 ^ k"
    unfolding y_def t_def using assms(1,2) by (rule scaled_bounds)+
  have "of_int (10 ^ (k - 1)) \<le> y" using yb(1) by simp
  then have lo1: "10 ^ (k - 1) \<le> lo"
    unfolding lo_def by (simp only: le_floor_iff)
  have "y < of_int (10 ^ k)" using yb(2) by simp
  then have lo2: "lo < 10 ^ k"
    unfolding lo_def by (simp only: floor_less_iff)
  define ok where "ok = (\<lambda>s. round_pos (of_int s * 10 powi t) = Some x)"
  define chosen where "chosen =
    (if ok lo \<and> ok (lo + 1) then Some (nearest y lo)
     else if ok lo then Some lo
     else if ok (lo + 1) then Some (lo + 1)
     else None)"
  have cand: "candidate k x =
    (case chosen of
       None \<Rightarrow> None
     | Some s \<Rightarrow> if s = 10 ^ k then Some (10 ^ (k - 1), t + 1 + int k)
                 else Some (nat s, t + int k))"
    by (simp add: candidate_def Let_def chosen_def ok_def lo_def y_def t_def)
  from assms(3) obtain s0 where ch: "chosen = Some s0"
    and res: "(s, n) = (if s0 = 10 ^ k then (10 ^ (k - 1), t + 1 + int k) else (nat s0, t + int k))"
    unfolding cand by (cases chosen) (auto split: if_splits)
  from ch have "(s0 = lo \<or> s0 = lo + 1) \<and> ok s0"
    unfolding chosen_def using nearest_cases [of y lo] by (auto split: if_splits)
  then have s0: "s0 = lo \<or> s0 = lo + 1"
    and ok: "round_pos (of_int s0 * 10 powi t) = Some x"
    by (simp_all add: ok_def)
  have range: "10 ^ (k - 1) \<le> s0" "s0 \<le> 10 ^ k"
    using s0 lo1 lo2 by auto
  have "10 ^ (k - 1) \<le> s \<and> s < 10 ^ k \<and>
        round_pos (of_nat s * 10 powi (n - int k)) = Some x"
  proof (cases "s0 = 10 ^ k")
    case True
    with res have s: "s = 10 ^ (k - 1)" and n: "n = t + 1 + int k" by simp_all
    have "(of_nat s :: rat) * 10 powi (n - int k) = 10 ^ (k - 1) * (10 powi t * 10)"
      by (simp add: s n power_int_add)
    also have "\<dots> = 10 ^ k * 10 powi t"
      using assms(2) by (cases k) simp_all
    also have "\<dots> = of_int s0 * 10 powi t"
      by (simp add: True)
    finally show ?thesis
      using ok assms(2) by (simp add: s)
  next
    case False
    with res have s: "s = nat s0" and n: "n = t + int k" by simp_all
    have pos: "0 < s0"
      using range(1) by (rule less_le_trans [rotated]) simp
    have "s0 < int (10 ^ k)" "int (10 ^ (k - 1)) \<le> s0"
      using range False by simp_all
    then have "s < 10 ^ k" "10 ^ (k - 1) \<le> s"
      unfolding s using pos by (simp_all only: nat_less_iff le_nat_iff less_imp_le)
    moreover have "(of_nat s :: rat) = of_int s0"
      using pos by (simp add: s)
    ultimately show ?thesis
      using ok by (simp add: n)
  qed
  then show "10 ^ (k - 1) \<le> s" and "s < 10 ^ k"
    and "round_pos (of_nat s * 10 powi (n - int k)) = Some x"
    by simp_all
qed

lemma shortest_valid:
  assumes "0 < x" and "1 \<le> k" and "\<exists>K. k \<le> K \<and> K < k + fuel \<and> candidate K x \<noteq> None"
    and "shortest fuel k x = (k', s, n)"
  shows "1 \<le> k' \<and> 10 ^ (k' - 1) \<le> s \<and> s < 10 ^ k' \<and>
         round_pos (of_nat s * 10 powi (n - int k')) = Some x"
  using assms(2-)
proof (induction fuel arbitrary: k)
  case 0
  then show ?case by force
next
  case (Suc fuel)
  show ?case
  proof (cases "candidate k x")
    case None
    from Suc.prems(2) obtain K where K: "k \<le> K" "K < k + Suc fuel" "candidate K x \<noteq> None"
      by blast
    with None have "K \<noteq> k" by auto
    with K have "\<exists>K. Suc k \<le> K \<and> K < Suc k + fuel \<and> candidate K x \<noteq> None"
      by (intro exI [of _ K]) simp
    moreover from Suc.prems(3) None have "shortest fuel (Suc k) x = (k', s, n)"
      by (simp add: shortest.simps)
    ultimately show ?thesis
      using Suc.prems(1) by (intro Suc.IH) simp_all
  next
    case (Some r)
    with Suc.prems(3) have r: "r = (s, n)" and k': "k' = k"
      by (auto simp add: shortest.simps split: prod.splits)
    from candidate_valid [OF assms(1) Suc.prems(1) Some [unfolded r]] Suc.prems(1)
    show ?thesis by (simp add: k')
  qed
qed

text \<open>With enough digits the decimal expansion of a binary64 value is exact.\<close>

lemma candidate_exact:
  assumes "0 < x" and "round_pos x = Some x" and "1 \<le> K"
    and "ilog 10 x + 1 + int (nat (- max (ilog 2 x - 52) (- 1074))) \<le> int K"
  shows "candidate K x \<noteq> None"
proof -
  define E where "E = max (ilog 2 x - 52) (- 1074)"
  define t where "t = ilog 10 x + 1 - int K"
  define j where "j = nat (- t)"
  obtain m where m: "x = of_int m * 2 powi E"
    using round_pos_fixD(1) [OF assms(1,2)] unfolding E_def by blast
  have t: "t \<le> 0"
    using assms(4) unfolding t_def by arith
  have j: "- E \<le> int j" "t = - int j"
    using assms(4) t unfolding t_def j_def E_def by arith+
  have p10: "(10::rat) powi t = 1 / 10 ^ j"
    using t by (simp add: powi_neg j_def)
  have "(2::rat) powi E * 2 ^ j = 2 powi (E + int j)"
    by (simp add: power_int_add)
  also have "\<dots> = of_int (2 ^ nat (E + int j))"
    using j(1) by (simp add: power_int_def)
  finally have two: "(2::rat) powi E * 2 ^ j = of_int (2 ^ nat (E + int j))" .
  have ten: "(10::rat) ^ j = 2 ^ j * 5 ^ j"
    by (simp flip: power_mult_distrib)
  have "x / 10 powi t = of_int m * (2 powi E * 2 ^ j) * 5 ^ j"
    by (simp add: p10 m ten)
  also have "\<dots> = of_int (m * 2 ^ nat (E + int j) * 5 ^ j)"
    by (simp only: two) simp
  finally have y: "x / 10 powi t = of_int (m * 2 ^ nat (E + int j) * 5 ^ j)" .
  define Y where "Y = m * 2 ^ nat (E + int j) * 5 ^ j"
  have fl: "\<lfloor>x / 10 powi t\<rfloor> = Y"
    by (simp only: y Y_def floor_of_int)
  have "of_int Y * 10 powi t = x / 10 powi t * 10 powi t"
    by (simp only: y Y_def)
  then have "of_int Y * 10 powi t = x"
    by simp
  then have ok: "round_pos (of_int Y * 10 powi t) = Some x"
    using assms(2) by simp
  show ?thesis
    using ok by (simp add: candidate_def Let_def fl flip: t_def)
qed

lemma pos_toString_parse:
  assumes "0 < x" and "round_pos x = Some x"
  shows "\<exists>v. parse_unsigned (pos_toString x) = Some v \<and> round_pos v = Some x"
    and "\<exists>c rest. pos_toString x = c # rest \<and> is_digit c"
proof -
  obtain k s n where sh: "shortest (digits_bound x) 1 x = (k, s, n)"
    by (cases "shortest (digits_bound x) 1 x") auto
  have "candidate (digits_bound x) x \<noteq> None"
    using assms by (rule candidate_exact) (simp_all add: digits_bound_def)
  then have "\<exists>K. 1 \<le> K \<and> K < 1 + digits_bound x \<and> candidate K x \<noteq> None"
    by (intro exI [of _ "digits_bound x"]) (simp add: digits_bound_def)
  with assms(1) have v: "1 \<le> k \<and> 10 ^ (k - 1) \<le> s \<and> s < 10 ^ k \<and>
      round_pos (of_nat s * 10 powi (n - int k)) = Some x"
    using sh by (intro shortest_valid [of x 1 "digits_bound x"]) simp_all
  have f: "pos_toString x = format_digits k s n"
    using sh by (simp add: pos_toString_def)
  from v parse_format [of k s n]
  show "\<exists>v. parse_unsigned (pos_toString x) = Some v \<and> round_pos v = Some x"
    and "\<exists>c rest. pos_toString x = c # rest \<and> is_digit c"
    by (simp_all add: f)
qed

subsection \<open>The text of a Number read back\<close>

lemma digit_not:
  assumes "is_digit c"
  shows "\<not> is_ws c" and "c \<noteq> CHR ''-''" and "c \<noteq> CHR ''+''" and "c \<noteq> CHR ''I''"
  using assms by (auto simp add: is_digit_def is_ws_def)

lemma parseFloat_digit:
  assumes "is_digit c"
  shows "parseFloat (c # rest) =
           (case parse_unsigned (c # rest) of None \<Rightarrow> NaN | Some v \<Rightarrow> signed False (round_pos v))"
  using digit_not [OF assms] by (simp add: parseFloat_def)

lemma parseFloat_minus:
  assumes "is_digit c"
  shows "parseFloat (CHR ''-'' # c # rest) =
           (case parse_unsigned (c # rest) of None \<Rightarrow> NaN | Some v \<Rightarrow> signed True (round_pos v))"
  using digit_not [OF assms] by (simp add: parseFloat_def is_ws_def)

lemma parseFloat_words:
  "parseFloat ''NaN'' = NaN" "parseFloat ''Infinity'' = PosInf" "parseFloat ''-Infinity'' = NegInf"
  "parseFloat ''0'' = Fin 0"
  by code_simp+

text \<open>Reading back the text of a Number gives that Number; negative zero, printed as \<open>0\<close>, comes back as zero.\<close>

lemma parseFloat_toString:
  assumes "is_number r"
  shows "same_number (parseFloat (toString r)) r"
proof (cases r)
  case (Fin q)
  consider (zero) "q = 0" | (pos) "0 < q" | (neg) "q < 0"
    by (cases q "0::rat" rule: linorder_cases) auto
  then show ?thesis
  proof cases
    case zero
    then show ?thesis
      by (simp add: Fin toString.simps parseFloat_words same_number_def)
  next
    case pos
    with assms Fin have fx: "round_pos q = Some q" by simp
    obtain v c rest where "parse_unsigned (pos_toString q) = Some v" "round_pos v = Some q"
      "pos_toString q = c # rest" "is_digit c"
      using pos_toString_parse [OF pos fx] by blast
    with pos show ?thesis
      by (simp add: Fin toString.simps parseFloat_digit same_number_def)
  next
    case neg
    then have pos: "0 < - q" by simp
    with assms Fin have fx: "round_pos (- q) = Some (- q)" by simp
    obtain v c rest where "parse_unsigned (pos_toString (- q)) = Some v"
      "round_pos v = Some (- q)" "pos_toString (- q) = c # rest" "is_digit c"
      using pos_toString_parse [OF pos fx] by blast
    with neg show ?thesis
      by (simp add: Fin toString.simps parseFloat_minus same_number_def)
  qed
qed (simp_all add: toString.simps parseFloat_words same_number_def)

subsection \<open>The results of arithmetic are Numbers\<close>

lemma round_pos_zero: "round_pos 0 = Some 0"
  by (simp add: round_pos_def)

lemma is_number_signed:
  assumes "0 \<le> q"
  shows "is_number (signed neg (round_pos q))"
proof (cases "round_pos q")
  case None
  then show ?thesis by simp
next
  case (Some v)
  with round_pos_idem [OF assms Some] show ?thesis by (simp add: round_pos_zero)
qed

lemma is_number_to_number: "is_number (to_number q)"
  by (simp add: to_number_def is_number_signed round_pos_zero)

lemma is_number_add: "is_number (js_add x y)"
  by (cases x; cases y) (simp_all add: js_add.simps is_number_to_number)

lemma is_number_sub: "is_number (js_sub x y)"
  by (simp add: js_sub_def is_number_add)

lemma is_number_mul: "is_number (js_mul x y)"
  by (simp add: js_mul_def is_number_signed)

lemma is_number_div: "is_number (js_div x y)"
  by (simp add: js_div_def is_number_signed round_pos_zero)

lemma is_number_rem: "is_number x \<Longrightarrow> is_number (js_rem x y)"
  by (simp add: js_rem_def Let_def is_number_to_number round_pos_zero)

lemma parse_unsigned_nonneg: "parse_unsigned s = Some v \<Longrightarrow> 0 \<le> v"
  by (auto simp add: parse_unsigned_def Let_def split: if_splits)

lemma is_number_parseFloat: "is_number (parseFloat s)"
  by (auto simp add: parseFloat_def Let_def is_number_signed parse_unsigned_nonneg
        split: option.splits)

lemma is_number_performCalculation:
  assumes "is_number a" and "is_number b"
  shows "is_number (fst (performCalculation a b operation))"
  using assms
  by (simp add: performCalculation_def is_number_add is_number_sub is_number_mul is_number_div
        is_number_rem)

subsection \<open>An operator pressed twice\<close>

lemma pending_is_number:
  assumes "pending_ok s" and "pending s = Some (pv, operation)"
  shows "is_number pv"
  using assms by (auto simp add: pending_ok_def pending_def split: option.splits if_splits)

lemma handleOperation_first:
  assumes "pending_ok s"
  shows "shouldResetDisplay (handleOperation operation s) \<and>
         (\<exists>v. previousValue (handleOperation operation s) = Some v \<and>
              same_number v (parseFloat (mainDisplay (handleOperation operation s))))"
proof (cases "pending s")
  case None
  then show ?thesis
    by (cases "operation = []")
       (simp_all add: handleOperation_def Let_def same_number_def)
next
  case (Some p)
  obtain pv pendingOperation where p: "p = (pv, pendingOperation)"
    by (cases p)
  show ?thesis
  proof (cases "shouldResetDisplay s")
    case True
    with Some p show ?thesis
      by (cases "operation = []")
         (simp_all add: handleOperation_def Let_def same_number_def)
  next
    case False
    define r where "r = fst (performCalculation pv (parseFloat (mainDisplay s)) pendingOperation)"
    have "is_number pv"
      using assms Some unfolding p by (rule pending_is_number)
    then have "is_number r"
      unfolding r_def using is_number_parseFloat by (rule is_number_performCalculation)
    then have "same_number (parseFloat (toString r)) r"
      by (rule parseFloat_toString)
    then have "same_number r (parseFloat (toString r))"
      by (auto simp add: same_number_def)
    with Some p False show ?thesis
      by (cases "operation = []")
         (auto simp add: handleOperation_def calculate_def updateDisplay_def Let_def r_def
            split: prod.splits)
  qed
qed

lemma handleOperation_second:
  assumes "shouldResetDisplay s"
  shows "previousValue (handleOperation operation s) = Some (parseFloat (mainDisplay s))"
    and "mainDisplay (handleOperation operation s) = mainDisplay s"
    and "currentOperation (handleOperation operation s) = Some operation"
  using assms
  by (cases "pending s"; cases "operation = []";
      auto simp add: handleOperation_def Let_def split: prod.splits)+

lemma is_number_5: "is_number (Fin 5)"
  by code_simp

text \<open>
  C5. From every state whose pending operand, if any, is a Number, an operator pressed
  right after another operator becomes the pending operator, leaves Display Text as the
  first press left it, and leaves the pending operand equal to the value the first press
  stored: the second press reads the operand back from the display, which shows the text
  of that value.
\<close>

theorem operator_twice:
  assumes "pending_ok s"
  shows "currentOperation (handleOperation op2 (handleOperation op1 s)) = Some op2 \<and>
         mainDisplay (handleOperation op2 (handleOperation op1 s)) =
           mainDisplay (handleOperation op1 s) \<and>
         (\<exists>v1 v2. previousValue (handleOperation op1 s) = Some v1 \<and>
                  previousValue (handleOperation op2 (handleOperation op1 s)) = Some v2 \<and>
                  same_number v1 v2)"
  using handleOperation_first [OF assms, of op1]
    handleOperation_second [of "handleOperation op1 s" op2]
  by auto

theorem operator_twice_witness:
  "previousValue (handleOperation ''*'' (run [Digit CHR ''5'', BinaryOperator ''+'', Digit CHR ''3'']))
     = Some (Fin 8) \<and>
   currentOperation (handleOperation ''-'' (handleOperation ''*''
       (run [Digit CHR ''5'', BinaryOperator ''+'', Digit CHR ''3'']))) = Some ''-'' \<and>
   mainDisplay (handleOperation ''-'' (handleOperation ''*''
       (run [Digit CHR ''5'', BinaryOperator ''+'', Digit CHR ''3'']))) = ''8'' \<and>
   (\<exists>v2. previousValue (handleOperation ''-'' (handleOperation ''*''
       (run [Digit CHR ''5'', BinaryOperator ''+'', Digit CHR ''3'']))) = Some v2 \<and>
         same_number (Fin 8) v2)"
proof -
  have st: "run [Digit CHR ''5'', BinaryOperator ''+'', Digit CHR ''3''] =
     \<lparr>previousValue = Some (Fin 5), currentOperation = Some ''+'', shouldResetDisplay = False,
      mainDisplay = ''3'', operationDisplay = ''5 +'', alerts = []\<rparr>"
    by (simp add: run_def initial_def handler_defs parseFloat_5 toString_5)
  have first: "handleOperation ''*'' (run [Digit CHR ''5'', BinaryOperator ''+'', Digit CHR ''3'']) =
     \<lparr>previousValue = Some (Fin 8), currentOperation = Some ''*'', shouldResetDisplay = True,
      mainDisplay = ''8'', operationDisplay = ''8 *'', alerts = []\<rparr>"
    by (simp add: st handler_defs performCalculation_def parseFloat_3 add_5_3 toString_8)
  have "pending_ok (run [Digit CHR ''5'', BinaryOperator ''+'', Digit CHR ''3''])"
    by (simp add: st pending_ok_def is_number_5 del: is_number.simps)
  from operator_twice [OF this, of "''-''" "''*''"] show ?thesis
    by (simp add: first)
qed


subsection \<open>The shape of Display Text\<close>








end
